theory Spec2Isabelle
  imports Main
begin

section \<open>Owl Bot: scanning googleapis-gen and scheduling pull requests\<close>

text \<open>
  A shallow embedding of \<^verbatim>\<open>packages/owl-bot/src/scan-googleapis-gen-and-create-pull-requests.ts\<close>.

  Strings are lists of code units. The type \<^typ>\<open>char\<close> covers the code units below 256,
  which is what commit hashes and repository paths are made of. Arrays are lists;
  \<^verbatim>\<open>push\<close> appends at the end. A value that may be \<^verbatim>\<open>undefined\<close> is an
  \<^typ>\<open>'a option\<close>. Logging has no effect on any value computed and is left out, and so
  is the octokit handle of line 135, which is created once and never read.
\<close>

subsection \<open>Data model\<close>

text \<open>\<^verbatim>\<open>GithubRepo\<close> (github-repo.ts): the identity of a destination repository.\<close>

record GithubRepo =
  owner :: string
  repo :: string

text \<open>
  \<^verbatim>\<open>OwlBotYaml\<close> (config-files.ts): of the parsed configuration only the optional field
  \<^verbatim>\<open>begin-after-commit-hash\<close> is read by the code under study.
\<close>

record OwlBotYaml =
  begin_after_commit_hash :: "string option"

text \<open>\<^verbatim>\<open>OwlBotYamlAndPath\<close> and \<^verbatim>\<open>AffectedRepo\<close> (configs-store.ts).\<close>

record OwlBotYamlAndPath =
  path :: string
  yaml :: OwlBotYaml

record AffectedRepo =
  ar_repo :: GithubRepo
  ar_yamls :: "OwlBotYamlAndPath list"

text \<open>\<^verbatim>\<open>interface Todo\<close>, lines 32-36.\<close>

record Todo =
  todo_repo :: GithubRepo
  commitHash :: string
  yamlPaths :: "string list"

subsection \<open>JavaScript primitives used by the code\<close>

text \<open>
  \<^verbatim>\<open>String.prototype.trim\<close> strips white space and line terminators from both ends.
  Below 256 these are TAB, LF, VT, FF, CR, SP and NBSP.
\<close>

definition isWhiteSpace :: "char \<Rightarrow> bool" where
  "isWhiteSpace c = (of_char c \<in> set [9, 10, 11, 12, 13, 32, 160 :: nat])"

definition trim :: "string \<Rightarrow> string" where
  "trim s = rev (dropWhile isWhiteSpace (rev (dropWhile isWhiteSpace s)))"

text \<open>Truthiness of a string that may be undefined: defined and not empty.\<close>

fun truthy :: "string option \<Rightarrow> bool" where
  "truthy None = False"
| "truthy (Some s) = (s \<noteq> [])"

text \<open>
  \<^verbatim>\<open>Array.prototype.indexOf\<close>: the first index holding the element, or -1.
  \<open>indexOfFrom k xs x\<close> is the search that has reached index \<open>k\<close> with \<open>xs\<close> left.
\<close>

fun indexOfFrom :: "nat \<Rightarrow> 'a list \<Rightarrow> 'a \<Rightarrow> int" where
  "indexOfFrom k [] x = - 1"
| "indexOfFrom k (y # ys) x = (if y = x then int k else indexOfFrom (Suc k) ys x)"

definition indexOf :: "'a list \<Rightarrow> 'a \<Rightarrow> int" where
  "indexOf xs x = indexOfFrom 0 xs x"

text \<open>\<^verbatim>\<open>f.startsWith('/')\<close>.\<close>

fun startsWithSlash :: "string \<Rightarrow> bool" where
  "startsWithSlash [] = False"
| "startsWithSlash (c # cs) = (c = CHR ''/'')"

subsection \<open>The staleness filter: \<^verbatim>\<open>isCommitHashTooOld\<close>, lines 48-66\<close>

text \<open>
  The loop of lines 54-61: the first trimmed \<^verbatim>\<open>begin-after-commit-hash\<close> that is truthy,
  or the initial value \<^verbatim>\<open>''\<close> when the loop runs to its end.
\<close>

fun beginAfterCommitHash :: "OwlBotYamlAndPath list \<Rightarrow> string" where
  "beginAfterCommitHash [] = []"
| "beginAfterCommitHash (y # ys) =
     (case map_option trim (begin_after_commit_hash (yaml y)) of
        None \<Rightarrow> beginAfterCommitHash ys
      | Some hash \<Rightarrow> if hash \<noteq> [] then hash else beginAfterCommitHash ys)"

text \<open>
  \<^verbatim>\<open>yamls ?? []\<close> turns an undefined list into the empty one. The commit index is a
  JavaScript number; the model takes any integer.
\<close>

definition isCommitHashTooOld ::
  "OwlBotYamlAndPath list option \<Rightarrow> int \<Rightarrow> string list \<Rightarrow> bool" where
  "isCommitHashTooOld yamls commitIndex commitHashes =
     (let b = beginAfterCommitHash (case yamls of None \<Rightarrow> [] | Some ys \<Rightarrow> ys);
          beginIndex = (if b \<noteq> [] then indexOf commitHashes b else - 1)
      in beginIndex \<ge> 0 \<and> beginIndex \<le> commitIndex)"

text \<open>
  A config declares a boundary when its \<^verbatim>\<open>begin-after-commit-hash\<close> is defined and
  not empty once trimmed: the test \<^verbatim>\<open>if (hash)\<close> of line 57.
\<close>

definition declaresBoundary :: "OwlBotYamlAndPath \<Rightarrow> bool" where
  "declaresBoundary y =
     (case begin_after_commit_hash (yaml y) of None \<Rightarrow> False | Some h \<Rightarrow> trim h \<noteq> [])"

subsection \<open>Collaborators\<close>

text \<open>
  The git checkout, the configuration store and the copy-state ledger are external. Each
  is a function of its arguments: nothing written during a scan changes what they answer,
  since the ledger is only written by the copy operation, which runs after the scan.
  \<^verbatim>\<open>copyTagFrom\<close> (copy-code.ts) is taken as a parameter as well. The model describes
  the runs in which no collaborator throws; an exception aborts the whole procedure.
\<close>

record Collaborators =
  getFilesModifiedBySha :: "string \<Rightarrow> string \<Rightarrow> string list"
  findReposAffectedByFileChanges :: "string list \<Rightarrow> AffectedRepo list"
  findBuildForCopy :: "GithubRepo \<Rightarrow> string \<Rightarrow> string option"
  copyTagFrom :: "string \<Rightarrow> string \<Rightarrow> string"

subsection \<open>The scan, lines 113-181\<close>

text \<open>Line 125: \<^verbatim>\<open>f.startsWith('/') ? f : '/' + f\<close>.\<close>

definition normalizePath :: "string \<Rightarrow> string" where
  "normalizePath f = (if startsWithSlash f then f else CHR ''/'' # f)"

text \<open>
  Lines 144-158, the dedup loop over \<^verbatim>\<open>repo.yamls\<close>; the last argument is
  \<^verbatim>\<open>todoYamls\<close> as built so far.
\<close>

fun todoYamlsLoop ::
  "Collaborators \<Rightarrow> GithubRepo \<Rightarrow> string \<Rightarrow> OwlBotYamlAndPath list \<Rightarrow> string list \<Rightarrow> string list"
where
  "todoYamlsLoop C r c [] todoYamls = todoYamls"
| "todoYamlsLoop C r c (y # ys) todoYamls =
     (let copyBuildId = findBuildForCopy C r (copyTagFrom C (path y) c)
      in if truthy copyBuildId then todoYamlsLoop C r c ys todoYamls
         else todoYamlsLoop C r c ys (todoYamls @ [path y]))"

text \<open>Lines 161-166, the value \<^verbatim>\<open>todos\<close>.\<close>

definition todos :: "int \<Rightarrow> GithubRepo \<Rightarrow> string \<Rightarrow> string list \<Rightarrow> Todo list" where
  "todos combinePullsThreshold r c todoYamls =
     (if int (length todoYamls) > combinePullsThreshold
      then [\<lparr>todo_repo = r, commitHash = c, yamlPaths = todoYamls\<rparr>]
      else map (\<lambda>y. \<lparr>todo_repo = r, commitHash = c, yamlPaths = [y]\<rparr>) todoYamls)"

text \<open>Lines 167-172: push every new item, in order.\<close>

definition pushAll :: "Todo list \<Rightarrow> Todo list \<Rightarrow> Todo list" where
  "pushAll todoStack ts = foldl (\<lambda>s t. s @ [t]) todoStack ts"

text \<open>
  Lines 134-174, the body of the loop over the affected repos: from the stack before to
  the stack after. The first branch is the \<^verbatim>\<open>continue\<close> of line 141.
\<close>

definition repoStep ::
  "Collaborators \<Rightarrow> int \<Rightarrow> string list \<Rightarrow> nat \<Rightarrow> string \<Rightarrow> Todo list \<Rightarrow> AffectedRepo \<Rightarrow> Todo list"
where
  "repoStep C combinePullsThreshold commitHashes commitIndex c todoStack r =
     (if isCommitHashTooOld (Some (ar_yamls r)) (int commitIndex) commitHashes then todoStack
      else let todoYamls = todoYamlsLoop C (ar_repo r) c (ar_yamls r) []
           in if length todoYamls > 0
              then pushAll todoStack (todos combinePullsThreshold (ar_repo r) c todoYamls)
              else todoStack)"

text \<open>
  The state of the scan: the todo stack, and a record of the calls made to the git
  collaborator (the indices of the commits whose touched files were fetched) and to the
  configuration store (the lists of paths passed to it), both in call order.
\<close>

record ScanState =
  todoStack :: "Todo list"
  filesFetched :: "nat list"
  storeQueries :: "string list list"

text \<open>
  Lines 118-181, the loop over \<^verbatim>\<open>commitHashes.entries()\<close>: \<open>commitIndex\<close> is the index
  reached and the list argument holds the hashes from there on. The first branch of the
  final test is the \<^verbatim>\<open>break\<close> of line 179.
\<close>

fun scanLoop ::
  "Collaborators \<Rightarrow> string \<Rightarrow> int \<Rightarrow> string list \<Rightarrow> nat \<Rightarrow> string list \<Rightarrow> ScanState \<Rightarrow> ScanState"
where
  "scanLoop C sourceDir combinePullsThreshold commitHashes commitIndex [] st = st"
| "scanLoop C sourceDir combinePullsThreshold commitHashes commitIndex (c # rest) st =
     (let touchedFiles = map normalizePath (getFilesModifiedBySha C sourceDir c);
          repos = findReposAffectedByFileChanges C touchedFiles;
          stackSize = length (todoStack st);
          stack' = foldl (repoStep C combinePullsThreshold commitHashes commitIndex c)
                     (todoStack st) repos;
          st' = \<lparr>todoStack = stack',
                 filesFetched = filesFetched st @ [commitIndex],
                 storeQueries = storeQueries st @ [touchedFiles]\<rparr>
      in if length repos > 0 \<and> length stack' = stackSize then st'
         else scanLoop C sourceDir combinePullsThreshold commitHashes (Suc commitIndex) rest st')"

definition scan :: "Collaborators \<Rightarrow> string \<Rightarrow> int \<Rightarrow> string list \<Rightarrow> ScanState" where
  "scan C sourceDir combinePullsThreshold commitHashes =
     scanLoop C sourceDir combinePullsThreshold commitHashes 0 commitHashes
       \<lparr>todoStack = [], filesFetched = [], storeQueries = []\<rparr>"

text \<open>
  What one commit contributes, seen from outside the loop: the repos it affects, and the
  items the loop over those repos pushes when started on an empty stack.
\<close>

definition affectedRepos :: "Collaborators \<Rightarrow> string \<Rightarrow> string \<Rightarrow> AffectedRepo list" where
  "affectedRepos C sourceDir c =
     findReposAffectedByFileChanges C (map normalizePath (getFilesModifiedBySha C sourceDir c))"

definition pushedAt ::
  "Collaborators \<Rightarrow> string \<Rightarrow> int \<Rightarrow> string list \<Rightarrow> nat \<Rightarrow> Todo list" where
  "pushedAt C sourceDir combinePullsThreshold commitHashes k =
     foldl (repoStep C combinePullsThreshold commitHashes k (commitHashes ! k)) []
       (affectedRepos C sourceDir (commitHashes ! k))"

text \<open>
  A commit is covered when it affects at least one repo and the loop over its repos
  pushes nothing: the test of line 177. Commit \<open>j\<close> is reached from commit \<open>i\<close> when no
  commit from \<open>i\<close> up to \<open>j\<close>, \<open>j\<close> excluded, is covered.
\<close>

definition covered :: "Collaborators \<Rightarrow> string \<Rightarrow> int \<Rightarrow> string list \<Rightarrow> nat \<Rightarrow> bool" where
  "covered C sourceDir combinePullsThreshold commitHashes k =
     (affectedRepos C sourceDir (commitHashes ! k) \<noteq> []
      \<and> pushedAt C sourceDir combinePullsThreshold commitHashes k = [])"

definition reached ::
  "Collaborators \<Rightarrow> string \<Rightarrow> int \<Rightarrow> string list \<Rightarrow> nat \<Rightarrow> nat \<Rightarrow> bool" where
  "reached C sourceDir combinePullsThreshold commitHashes i j =
     (\<forall>k. i \<le> k \<and> k < j \<longrightarrow> \<not> covered C sourceDir combinePullsThreshold commitHashes k)"

subsection \<open>The replay, lines 185-203\<close>

text \<open>\<^verbatim>\<open>enum WithNestedCommitDelimiters\<close> (create-pr.ts).\<close>

datatype WithNestedCommitDelimiters = No | Yes

text \<open>
  One call of \<^verbatim>\<open>copyCodeAndAppendOrCreatePullRequest\<close>: the fields of \<^verbatim>\<open>CopyParams\<close> that
  vary, and the other arguments. The ledger, the octokit factory and the logger are the
  same handles in every call.
\<close>

record CopyCall =
  sourceRepo :: string
  sourceRepoCommitHash :: string
  destRepo :: GithubRepo
  maxYamlCountPerPullRequest :: int
  copyYamlPaths :: "string list"
  nestedCommitDelimiters :: WithNestedCommitDelimiters
  draftPullRequests :: bool

definition copyCallFor ::
  "string \<Rightarrow> int \<Rightarrow> WithNestedCommitDelimiters \<Rightarrow> bool \<Rightarrow> Todo \<Rightarrow> CopyCall" where
  "copyCallFor sourceDir maxYamls nested draft todo =
     \<lparr>sourceRepo = sourceDir,
      sourceRepoCommitHash = commitHash todo,
      destRepo = todo_repo todo,
      maxYamlCountPerPullRequest = maxYamls,
      copyYamlPaths = yamlPaths todo,
      nestedCommitDelimiters = nested,
      draftPullRequests = draft\<rparr>"

text \<open>
  The copy collaborator acts on the world outside: pull requests and the ledger. It is a
  parameter, a function from the call and the world it starts in to the world it leaves.
  What can be observed of the replay is the sequence of events: a call begins when the
  function is invoked, and ends when the promise it returned settles.
\<close>

datatype CopyEvent = CallBegins CopyCall | CallEnds CopyCall

record 'w ReplayState =
  callsMade :: "CopyCall list"
  callEvents :: "CopyEvent list"
  world :: 'w

text \<open>
  Lines 186-202, the body of the loop over the reversed stack. The call of line 195 is
  awaited: the body does not finish, and the next call does not begin, before this call
  has ended and left its world behind.
\<close>

definition replayStep ::
  "(CopyCall \<Rightarrow> 'w \<Rightarrow> 'w) \<Rightarrow> string \<Rightarrow> int \<Rightarrow> WithNestedCommitDelimiters \<Rightarrow> bool \<Rightarrow>
   'w ReplayState \<Rightarrow> Todo \<Rightarrow> 'w ReplayState" where
  "replayStep copyCodeAndAppendOrCreatePullRequest sourceDir maxYamls nested draft st todo =
     (let params = copyCallFor sourceDir maxYamls nested draft todo;
          begun = callEvents st @ [CallBegins params];
          left = copyCodeAndAppendOrCreatePullRequest params (world st)
      in \<lparr>callsMade = callsMade st @ [params],
          callEvents = begun @ [CallEnds params],
          world = left\<rparr>)"

text \<open>
  The outcome of a run: the calls made to the copy collaborator, in the order made, the
  events of those calls, the world after the last call, and the number returned.
\<close>

record 'w Run =
  copyCalls :: "CopyCall list"
  copyEvents :: "CopyEvent list"
  finalWorld :: 'w
  returned :: nat

text \<open>
  \<^verbatim>\<open>todoStack.reverse()\<close> reverses the array in place, so the length returned at line
  203 is the length of the reversed stack. The last two arguments are the copy
  collaborator and the world in which the replay starts.
\<close>

definition scanGoogleapisGenAndCreatePullRequests ::
  "Collaborators \<Rightarrow> string \<Rightarrow> string list \<Rightarrow> int \<Rightarrow> WithNestedCommitDelimiters \<Rightarrow> int \<Rightarrow> bool \<Rightarrow>
   (CopyCall \<Rightarrow> 'w \<Rightarrow> 'w) \<Rightarrow> 'w \<Rightarrow> 'w Run"
where
  "scanGoogleapisGenAndCreatePullRequests C sourceDir commitHashes combinePullsThreshold
       nested maxYamls draft copyCodeAndAppendOrCreatePullRequest world0 =
     (let st = scan C sourceDir combinePullsThreshold commitHashes;
          reversed = rev (todoStack st);
          replayed = foldl (replayStep copyCodeAndAppendOrCreatePullRequest sourceDir maxYamls
                              nested draft)
                       \<lparr>callsMade = [], callEvents = [], world = world0\<rparr> reversed
      in \<lparr>copyCalls = callsMade replayed,
          copyEvents = callEvents replayed,
          finalWorld = world replayed,
          returned = length reversed\<rparr>)"

subsection \<open>A concrete history\<close>

text \<open>
  One destination repository with two configs, \<open>A\<close> and \<open>B\<close>. Commit \<open>c0\<close> touches
  nothing any config matches. Commits \<open>c1\<close> and \<open>c2\<close> touch files of both configs; the
  ledger holds a build for \<open>A\<close> at \<open>c2\<close>. Commit \<open>c3\<close> touches files of \<open>A\<close> only and the
  ledger holds a build for it. Any other commit touches files of \<open>B\<close> only.
\<close>

definition visionRepo :: GithubRepo where
  "visionRepo = \<lparr>owner = ''googleapis'', repo = ''nodejs-vision''\<rparr>"

definition yamlA :: OwlBotYamlAndPath where
  "yamlA = \<lparr>path = ''/a/.OwlBot.yaml'', yaml = \<lparr>begin_after_commit_hash = None\<rparr>\<rparr>"

definition yamlB :: OwlBotYamlAndPath where
  "yamlB = \<lparr>path = ''/b/.OwlBot.yaml'', yaml = \<lparr>begin_after_commit_hash = Some ''  ''\<rparr>\<rparr>"

definition exampleWorld :: Collaborators where
  "exampleWorld =
     \<lparr>getFilesModifiedBySha = (\<lambda>dir c.
         if c = ''c0'' then [''README.md'']
         else if c = ''c1'' then [''a/x.ts'', ''/b/y.ts'']
         else if c = ''c2'' then [''a/x.ts'']
         else if c = ''c3'' then [''a/z.ts'']
         else [''b/w.ts'']),
      findReposAffectedByFileChanges = (\<lambda>files.
         if ''/a/x.ts'' \<in> set files then [\<lparr>ar_repo = visionRepo, ar_yamls = [yamlA, yamlB]\<rparr>]
         else if ''/a/z.ts'' \<in> set files then [\<lparr>ar_repo = visionRepo, ar_yamls = [yamlA]\<rparr>]
         else if ''/b/w.ts'' \<in> set files then [\<lparr>ar_repo = visionRepo, ar_yamls = [yamlB]\<rparr>]
         else []),
      findBuildForCopy = (\<lambda>r tag.
         if tag = ''/a/.OwlBot.yaml@c2'' \<or> tag = ''/a/.OwlBot.yaml@c3''
         then Some ''build-7'' else None),
      copyTagFrom = (\<lambda>p c. p @ ''@'' @ c)\<rparr>"

text \<open>
  A copy collaborator for the concrete history: the world is the list of pull requests
  made so far, each the commit hash and the config-paths copied.
\<close>

definition examplePullRequest :: "CopyCall \<Rightarrow> (string \<times> string list) list \<Rightarrow> (string \<times> string list) list"
where
  "examplePullRequest params pulls = pulls @ [(sourceRepoCommitHash params, copyYamlPaths params)]"

section \<open>Properties\<close>

subsection \<open>Searching and trimming\<close>

lemma indexOfFrom_absent: "x \<notin> set xs \<Longrightarrow> indexOfFrom k xs x = - 1"
  by (induction xs arbitrary: k) auto

lemma indexOfFrom_first:
  "n < length xs \<Longrightarrow> xs ! n = x \<Longrightarrow> \<forall>j<n. xs ! j \<noteq> x \<Longrightarrow> indexOfFrom k xs x = int (k + n)"
proof (induction xs arbitrary: k n)
  case Nil
  then show ?case by simp
next
  case (Cons y ys)
  show ?case
  proof (cases n)
    case 0
    with Cons.prems show ?thesis by simp
  next
    case (Suc m)
    from Cons.prems Suc have neq: "y \<noteq> x" by auto
    from Cons.prems Suc have m: "m < length ys" "ys ! m = x" by auto
    from Cons.prems Suc have "\<forall>j<m. ys ! j \<noteq> x" by auto
    with Cons.IH[OF m] have "indexOfFrom (Suc k) ys x = int (Suc k + m)" by blast
    with neq Suc show ?thesis by simp
  qed
qed

lemma indexOfFrom_bounds:
  "k < length xs \<Longrightarrow> xs ! k = x \<Longrightarrow>
   int s \<le> indexOfFrom s xs x \<and> indexOfFrom s xs x \<le> int (s + k)"
proof (induction xs arbitrary: s k)
  case Nil
  then show ?case by simp
next
  case (Cons y ys)
  show ?case
  proof (cases "y = x")
    case True
    then show ?thesis by simp
  next
    case False
    with Cons.prems obtain m where k: "k = Suc m" by (cases k) auto
    with Cons.prems have "m < length ys" and "ys ! m = x" by auto
    from Cons.IH[OF this, of "Suc s"] False k show ?thesis by simp
  qed
qed

lemma indexOfFrom_range: "indexOfFrom s xs x = - 1 \<or> int s \<le> indexOfFrom s xs x"
proof (induction xs arbitrary: s)
  case Nil
  show ?case by simp
next
  case (Cons y ys)
  from Cons.IH[of "Suc s"] show ?case by auto
qed

lemma indexOfFrom_found:
  "int s \<le> indexOfFrom s xs x \<Longrightarrow>
   \<exists>n<length xs. xs ! n = x \<and> indexOfFrom s xs x = int (s + n)"
proof (induction xs arbitrary: s)
  case Nil
  then show ?case by simp
next
  case (Cons y ys)
  show ?case
  proof (cases "y = x")
    case True
    then show ?thesis by auto
  next
    case False
    with Cons.prems have "int s \<le> indexOfFrom (Suc s) ys x" by simp
    with indexOfFrom_range[of "Suc s" ys x] have "int (Suc s) \<le> indexOfFrom (Suc s) ys x"
      by linarith
    from Cons.IH[OF this] obtain n where n: "n < length ys" "ys ! n = x"
      "indexOfFrom (Suc s) ys x = int (Suc s + n)" by blast
    have "Suc n < length (y # ys) \<and> (y # ys) ! Suc n = x
          \<and> indexOfFrom s (y # ys) x = int (s + Suc n)"
      using n False by simp
    then show ?thesis by blast
  qed
qed

lemma indexOf_le_iff:
  "(0 \<le> indexOf hashes H \<and> indexOf hashes H \<le> i) =
     (\<exists>j<length hashes. hashes ! j = H \<and> int j \<le> i)"
proof
  assume a: "0 \<le> indexOf hashes H \<and> indexOf hashes H \<le> i"
  then have "int 0 \<le> indexOfFrom 0 hashes H" by (simp add: indexOf_def)
  from indexOfFrom_found[OF this] obtain n where "n < length hashes" "hashes ! n = H"
    "indexOf hashes H = int n" by (auto simp: indexOf_def)
  with a show "\<exists>j<length hashes. hashes ! j = H \<and> int j \<le> i" by auto
next
  assume "\<exists>j<length hashes. hashes ! j = H \<and> int j \<le> i"
  then obtain j where j: "j < length hashes" "hashes ! j = H" "int j \<le> i" by blast
  from indexOfFrom_bounds[OF j(1,2), of 0] j(3)
  show "0 \<le> indexOf hashes H \<and> indexOf hashes H \<le> i" by (simp add: indexOf_def)
qed

lemma distinct_first_occurrence:
  "distinct xs \<Longrightarrow> k < length xs \<Longrightarrow> \<forall>j<k. xs ! j \<noteq> xs ! k"
  by (auto simp: nth_eq_iff_index_eq)

lemma trim_all_white: "(\<forall>c\<in>set w. isWhiteSpace c) \<Longrightarrow> trim w = []"
  by (auto simp: trim_def dest: set_dropWhileD)

lemma trim_empty_iff: "trim w = [] \<longleftrightarrow> (\<forall>c\<in>set w. isWhiteSpace c)"
proof
  assume e: "trim w = []"
  have "dropWhile isWhiteSpace w = []"
  proof (rule ccontr)
    assume ne: "dropWhile isWhiteSpace w \<noteq> []"
    then have "\<not> isWhiteSpace (hd (dropWhile isWhiteSpace w))" by (rule hd_dropWhile)
    moreover from e have "\<forall>c\<in>set (dropWhile isWhiteSpace w). isWhiteSpace c"
      by (simp add: trim_def)
    ultimately show False using ne by (meson hd_in_set)
  qed
  then show "\<forall>c\<in>set w. isWhiteSpace c" by simp
next
  assume "\<forall>c\<in>set w. isWhiteSpace c"
  then show "trim w = []" by (rule trim_all_white)
qed

lemma beginAfterCommitHash_skip:
  "\<forall>y\<in>set pre. \<not> declaresBoundary y \<Longrightarrow> beginAfterCommitHash (pre @ ys) = beginAfterCommitHash ys"
  by (induction pre) (auto simp: declaresBoundary_def split: option.splits)

lemma beginAfterCommitHash_hit:
  "begin_after_commit_hash (yaml y) = Some h \<Longrightarrow> trim h \<noteq> [] \<Longrightarrow> beginAfterCommitHash (y # ys) = trim h"
  by simp

lemma beginAfterCommitHash_none:
  "\<forall>y\<in>set ys. \<not> declaresBoundary y \<Longrightarrow> beginAfterCommitHash ys = []"
  using beginAfterCommitHash_skip[of ys "[]"] by simp

subsection \<open>The staleness filter\<close>

lemma isCommitHashTooOld_Some_eq:
  "beginAfterCommitHash ys = beginAfterCommitHash zs \<Longrightarrow>
   isCommitHashTooOld (Some ys) i hashes = isCommitHashTooOld (Some zs) i hashes"
  by (simp add: isCommitHashTooOld_def)

lemma isCommitHashTooOld_no_boundary:
  "beginAfterCommitHash ys = [] \<Longrightarrow> \<not> isCommitHashTooOld (Some ys) i hashes"
  by (simp add: isCommitHashTooOld_def)

text \<open>
  Claim C3. Let \<open>H\<close> be the boundary selected from the configs, and \<open>k\<close> the index at
  which \<open>H\<close> occurs in the list of commit hashes: the list is a history, in which no hash
  repeats, or else \<open>k\<close> is the first index holding \<open>H\<close>, the one \<^verbatim>\<open>indexOf\<close> finds. Then
  the commit at index \<open>i\<close> is too old exactly when \<open>i \<ge> k\<close>. That every \<open>i \<ge> k\<close> is too
  old holds for any index \<open>k\<close> holding \<open>H\<close>, in any list. If \<open>H\<close> does not occur in the
  list, no commit is too old.
\<close>

theorem isCommitHashTooOld_boundary:
  assumes sel: "beginAfterCommitHash ys = H" and ne: "H \<noteq> []"
  shows "(k < length hashes \<and> hashes ! k = H
            \<and> (distinct hashes \<or> (\<forall>j<k. hashes ! j \<noteq> H)) \<longrightarrow>
            isCommitHashTooOld (Some ys) i hashes = (int k \<le> i))
       \<and> (k < length hashes \<and> hashes ! k = H \<and> int k \<le> i \<longrightarrow>
            isCommitHashTooOld (Some ys) i hashes)
       \<and> (H \<notin> set hashes \<longrightarrow> \<not> isCommitHashTooOld (Some ys) i hashes)"
proof (intro conjI impI)
  assume occ: "k < length hashes \<and> hashes ! k = H
                \<and> (distinct hashes \<or> (\<forall>j<k. hashes ! j \<noteq> H))"
  then have "\<forall>j<k. hashes ! j \<noteq> H"
  proof (elim conjE disjE)
    assume d: "distinct hashes" and lt: "k < length hashes" and H: "hashes ! k = H"
    from distinct_first_occurrence[OF d lt] H show ?thesis by simp
  qed
  with occ have "indexOf hashes H = int k"
    using indexOfFrom_first[of k hashes H 0] by (simp add: indexOf_def)
  with sel ne show "isCommitHashTooOld (Some ys) i hashes = (int k \<le> i)"
    by (simp add: isCommitHashTooOld_def)
next
  assume occ: "k < length hashes \<and> hashes ! k = H \<and> int k \<le> i"
  then have "0 \<le> indexOf hashes H \<and> indexOf hashes H \<le> int k"
    using indexOfFrom_bounds[of k hashes H 0] by (simp add: indexOf_def)
  with occ sel ne show "isCommitHashTooOld (Some ys) i hashes"
    by (simp add: isCommitHashTooOld_def)
next
  assume "H \<notin> set hashes"
  then have "indexOf hashes H = - 1"
    by (simp add: indexOf_def indexOfFrom_absent)
  with sel ne show "\<not> isCommitHashTooOld (Some ys) i hashes"
    by (simp add: isCommitHashTooOld_def)
qed

theorem isCommitHashTooOld_boundary_witness:
  "isCommitHashTooOld
      (Some [\<lparr>path = ''/a/.OwlBot.yaml'', yaml = \<lparr>begin_after_commit_hash = Some '' b1 ''\<rparr>\<rparr>])
      2 [''a0'', ''b1'', ''c2'']
   \<and> \<not> isCommitHashTooOld
      (Some [\<lparr>path = ''/a/.OwlBot.yaml'', yaml = \<lparr>begin_after_commit_hash = Some '' b1 ''\<rparr>\<rparr>])
      0 [''a0'', ''b1'', ''c2'']
   \<and> \<not> isCommitHashTooOld
      (Some [\<lparr>path = ''/a/.OwlBot.yaml'', yaml = \<lparr>begin_after_commit_hash = Some '' b1 ''\<rparr>\<rparr>])
      2 [''a0'', ''c2'']"
proof -
  let ?ys = "[\<lparr>path = ''/a/.OwlBot.yaml'', yaml = \<lparr>begin_after_commit_hash = Some '' b1 ''\<rparr>\<rparr>]"
  have sel: "beginAfterCommitHash ?ys = ''b1''"
    by (simp add: trim_def isWhiteSpace_def)
  have ne: "''b1'' \<noteq> []" by simp
  have occ: "1 < length [''a0'', ''b1'', ''c2''] \<and> [''a0'', ''b1'', ''c2''] ! 1 = ''b1''
             \<and> (distinct [''a0'', ''b1'', ''c2''] \<or> (\<forall>j<1. [''a0'', ''b1'', ''c2''] ! j \<noteq> ''b1''))"
    by simp
  have absent: "''b1'' \<notin> set [''a0'', ''c2'']" by simp
  from isCommitHashTooOld_boundary[OF sel ne, of 1 "[''a0'', ''b1'', ''c2'']" 2] occ
  have a: "isCommitHashTooOld (Some ?ys) 2 [''a0'', ''b1'', ''c2'']" by simp
  from isCommitHashTooOld_boundary[OF sel ne, of 1 "[''a0'', ''b1'', ''c2'']" 0] occ
  have b: "\<not> isCommitHashTooOld (Some ?ys) 0 [''a0'', ''b1'', ''c2'']" by simp
  from isCommitHashTooOld_boundary[OF sel ne, of 1 "[''a0'', ''c2'']" 2] absent
  have c: "\<not> isCommitHashTooOld (Some ?ys) 2 [''a0'', ''c2'']" by simp
  from a b c show ?thesis by blast
qed

text \<open>
  Claim C4. The boundary is taken from the first config, in list order, that declares
  one: with that config's trimmed value \<open>H\<close>, a commit is too old exactly when
  \<^verbatim>\<open>indexOf\<close> finds \<open>H\<close> at or before its index, that is, when \<open>H\<close> occurs in the list of
  commit hashes at or before that index. What the configs after it declare changes
  nothing. When no config declares a boundary, no commit is too old, whatever the index
  and the list of commit hashes.
\<close>

theorem first_declared_boundary_wins:
  "((\<forall>p\<in>set pre. \<not> declaresBoundary p) \<and> begin_after_commit_hash (yaml y) = Some h \<and> trim h \<noteq> [] \<longrightarrow>
       beginAfterCommitHash (pre @ y # post) = trim h
     \<and> isCommitHashTooOld (Some (pre @ y # post)) i hashes =
         (0 \<le> indexOf hashes (trim h) \<and> indexOf hashes (trim h) \<le> i)
     \<and> isCommitHashTooOld (Some (pre @ y # post)) i hashes =
         (\<exists>j<length hashes. hashes ! j = trim h \<and> int j \<le> i)
     \<and> isCommitHashTooOld (Some (pre @ y # post)) i hashes =
         isCommitHashTooOld (Some (pre @ y # post')) i hashes)
   \<and> ((\<forall>p\<in>set ys. \<not> declaresBoundary p) \<longrightarrow> \<not> isCommitHashTooOld (Some ys) i hashes)"
proof (intro conjI impI)
  assume a: "(\<forall>p\<in>set pre. \<not> declaresBoundary p) \<and> begin_after_commit_hash (yaml y) = Some h \<and> trim h \<noteq> []"
  then have sel: "beginAfterCommitHash (pre @ y # zs) = trim h" for zs
    by (simp add: beginAfterCommitHash_skip)
  show "beginAfterCommitHash (pre @ y # post) = trim h" by (rule sel)
  from a show idx: "isCommitHashTooOld (Some (pre @ y # post)) i hashes =
         (0 \<le> indexOf hashes (trim h) \<and> indexOf hashes (trim h) \<le> i)"
    by (simp add: isCommitHashTooOld_def sel Let_def)
  show "isCommitHashTooOld (Some (pre @ y # post)) i hashes =
         (\<exists>j<length hashes. hashes ! j = trim h \<and> int j \<le> i)"
    unfolding idx by (rule indexOf_le_iff)
  show "isCommitHashTooOld (Some (pre @ y # post)) i hashes =
        isCommitHashTooOld (Some (pre @ y # post')) i hashes"
    by (rule isCommitHashTooOld_Some_eq) (simp add: sel)
next
  assume "\<forall>p\<in>set ys. \<not> declaresBoundary p"
  then have "beginAfterCommitHash ys = []" by (rule beginAfterCommitHash_none)
  then show "\<not> isCommitHashTooOld (Some ys) i hashes" by (rule isCommitHashTooOld_no_boundary)
qed

theorem first_declared_boundary_wins_witness:
  "beginAfterCommitHash
     [\<lparr>path = ''/a'', yaml = \<lparr>begin_after_commit_hash = None\<rparr>\<rparr>,
      \<lparr>path = ''/b'', yaml = \<lparr>begin_after_commit_hash = Some ''b1''\<rparr>\<rparr>,
      \<lparr>path = ''/c'', yaml = \<lparr>begin_after_commit_hash = Some ''a0''\<rparr>\<rparr>] = ''b1''
   \<and> isCommitHashTooOld
     (Some [\<lparr>path = ''/a'', yaml = \<lparr>begin_after_commit_hash = None\<rparr>\<rparr>,
            \<lparr>path = ''/b'', yaml = \<lparr>begin_after_commit_hash = Some ''b1''\<rparr>\<rparr>,
            \<lparr>path = ''/c'', yaml = \<lparr>begin_after_commit_hash = Some ''a0''\<rparr>\<rparr>]) 1 [''a0'', ''b1'']
   \<and> \<not> isCommitHashTooOld
     (Some [\<lparr>path = ''/a'', yaml = \<lparr>begin_after_commit_hash = None\<rparr>\<rparr>,
            \<lparr>path = ''/b'', yaml = \<lparr>begin_after_commit_hash = Some ''b1''\<rparr>\<rparr>,
            \<lparr>path = ''/c'', yaml = \<lparr>begin_after_commit_hash = Some ''a0''\<rparr>\<rparr>]) 0 [''a0'', ''b1'']
   \<and> \<not> isCommitHashTooOld
     (Some [\<lparr>path = ''/a'', yaml = \<lparr>begin_after_commit_hash = None\<rparr>\<rparr>]) 5 [''a0'', ''b1'']"
proof -
  let ?a = "\<lparr>path = ''/a'', yaml = \<lparr>begin_after_commit_hash = None\<rparr>\<rparr>"
  let ?b = "\<lparr>path = ''/b'', yaml = \<lparr>begin_after_commit_hash = Some ''b1''\<rparr>\<rparr>"
  let ?c = "\<lparr>path = ''/c'', yaml = \<lparr>begin_after_commit_hash = Some ''a0''\<rparr>\<rparr>"
  have pre: "\<forall>p\<in>set [?a]. \<not> declaresBoundary p" by (simp add: declaresBoundary_def)
  have hit: "begin_after_commit_hash (yaml ?b) = Some ''b1''" by simp
  have tr: "trim ''b1'' = ''b1''" by (simp add: trim_def isWhiteSpace_def)
  have ix: "indexOf [''a0'', ''b1''] ''b1'' = 1" by (simp add: indexOf_def)
  from first_declared_boundary_wins[of "[?a]" ?b "''b1''" "[?c]" 1 "[''a0'', ''b1'']" "[]" "[?a]"]
    pre hit tr ix
  have one: "beginAfterCommitHash [?a, ?b, ?c] = ''b1''
             \<and> isCommitHashTooOld (Some [?a, ?b, ?c]) 1 [''a0'', ''b1'']"
    by simp
  from first_declared_boundary_wins[of "[?a]" ?b "''b1''" "[?c]" 0 "[''a0'', ''b1'']" "[]" "[?a]"]
    pre hit tr ix
  have two: "\<not> isCommitHashTooOld (Some [?a, ?b, ?c]) 0 [''a0'', ''b1'']"
    by simp
  from first_declared_boundary_wins[of "[?a]" ?b "''b1''" "[?c]" 5 "[''a0'', ''b1'']" "[]" "[?a]"]
    pre
  have three: "\<not> isCommitHashTooOld (Some [?a]) 5 [''a0'', ''b1'']"
    by blast
  from one two three show ?thesis by blast
qed

text \<open>
  Claim C10. With \<^verbatim>\<open>yamls\<close> undefined the function returns false. A
  \<^verbatim>\<open>begin-after-commit-hash\<close> made of white space only counts as an absent one: the
  result is the same as with the field undefined, and a config set holding only that
  config makes no commit too old.
\<close>

theorem isCommitHashTooOld_total:
  "\<not> isCommitHashTooOld None i hashes
   \<and> ((\<forall>c\<in>set w. isWhiteSpace c) \<and> begin_after_commit_hash (yaml y) = Some w \<longrightarrow>
        isCommitHashTooOld (Some (pre @ y # post)) i hashes =
          isCommitHashTooOld
            (Some (pre @ y\<lparr>yaml := (yaml y)\<lparr>begin_after_commit_hash := None\<rparr>\<rparr> # post)) i hashes
      \<and> \<not> isCommitHashTooOld (Some [y]) i hashes)"
proof (intro conjI impI)
  show "\<not> isCommitHashTooOld None i hashes"
    by (simp add: isCommitHashTooOld_def)
next
  assume a: "(\<forall>c\<in>set w. isWhiteSpace c) \<and> begin_after_commit_hash (yaml y) = Some w"
  then have t: "trim w = []" by (simp add: trim_all_white)
  have "beginAfterCommitHash (pre @ y # post) =
        beginAfterCommitHash (pre @ y\<lparr>yaml := (yaml y)\<lparr>begin_after_commit_hash := None\<rparr>\<rparr> # post)"
    by (induction pre) (use a t in \<open>simp_all split: option.splits\<close>)
  then show "isCommitHashTooOld (Some (pre @ y # post)) i hashes =
          isCommitHashTooOld
            (Some (pre @ y\<lparr>yaml := (yaml y)\<lparr>begin_after_commit_hash := None\<rparr>\<rparr> # post)) i hashes"
    by (rule isCommitHashTooOld_Some_eq)
next
  assume a: "(\<forall>c\<in>set w. isWhiteSpace c) \<and> begin_after_commit_hash (yaml y) = Some w"
  then have t: "trim w = []" by (simp add: trim_all_white)
  with a have "beginAfterCommitHash [y] = []" by simp
  then show "\<not> isCommitHashTooOld (Some [y]) i hashes" by (rule isCommitHashTooOld_no_boundary)
qed

theorem isCommitHashTooOld_total_witness:
  "\<not> isCommitHashTooOld None 3 [''a0'', ''b1'']
   \<and> \<not> isCommitHashTooOld
        (Some [\<lparr>path = ''/a'', yaml = \<lparr>begin_after_commit_hash = Some [CHR '' '', CHR 0x09, CHR 0x0A]\<rparr>\<rparr>])
        3 [''a0'', ''b1'']"
proof -
  let ?y = "\<lparr>path = ''/a'', yaml = \<lparr>begin_after_commit_hash = Some [CHR '' '', CHR 0x09, CHR 0x0A]\<rparr>\<rparr>"
  have ws: "\<forall>c\<in>set [CHR '' '', CHR 0x09, CHR 0x0A]. isWhiteSpace c"
    by (simp add: isWhiteSpace_def)
  have f: "begin_after_commit_hash (yaml ?y) = Some [CHR '' '', CHR 0x09, CHR 0x0A]" by simp
  from isCommitHashTooOld_total[of 3 "[''a0'', ''b1'']" "[CHR '' '', CHR 0x09, CHR 0x0A]" ?y "[]" "[]"]
    ws f
  show ?thesis by blast
qed

subsection \<open>The loops over configs and repos\<close>

lemma todoYamlsLoop_filter:
  "todoYamlsLoop C r c ys acc =
     acc @ map path (filter (\<lambda>y. \<not> truthy (findBuildForCopy C r (copyTagFrom C (path y) c))) ys)"
  by (induction ys arbitrary: acc) (simp_all add: Let_def)

lemma todoYamlsLoop_member:
  "p \<in> set (todoYamlsLoop C r c ys []) \<longleftrightarrow>
     (\<exists>y\<in>set ys. path y = p \<and> \<not> truthy (findBuildForCopy C r (copyTagFrom C p c)))"
  by (auto simp: todoYamlsLoop_filter)

lemma pushAll_append: "pushAll s ts = s @ ts"
  unfolding pushAll_def by (induction ts arbitrary: s) simp_all

lemma repoStep_append:
  "repoStep C thr hs i c s r = s @ repoStep C thr hs i c [] r"
  by (simp add: repoStep_def pushAll_append Let_def)

lemma foldl_repoStep:
  "foldl (repoStep C thr hs i c) s rs = s @ concat (map (repoStep C thr hs i c []) rs)"
proof (induction rs arbitrary: s)
  case Nil
  show ?case by simp
next
  case (Cons r rs)
  have "foldl (repoStep C thr hs i c) s (r # rs) =
        foldl (repoStep C thr hs i c) (s @ repoStep C thr hs i c [] r) rs"
    using repoStep_append[of C thr hs i c s r] by simp
  also have "\<dots> = (s @ repoStep C thr hs i c [] r) @ concat (map (repoStep C thr hs i c []) rs)"
    by (rule Cons.IH)
  finally show ?case by simp
qed

lemma foldl_repoStep_pushed:
  "foldl (repoStep C thr hs i c) s rs = s @ foldl (repoStep C thr hs i c) [] rs"
  using foldl_repoStep[of C thr hs i c s rs] foldl_repoStep[of C thr hs i c "[]" rs] by simp

lemma repoStep_member:
  assumes "t \<in> set (repoStep C thr hs i c [] r)"
  shows "todo_repo t = ar_repo r \<and> commitHash t = c
       \<and> set (yamlPaths t) \<subseteq> set (todoYamlsLoop C (ar_repo r) c (ar_yamls r) [])
       \<and> yamlPaths t \<noteq> []
       \<and> \<not> isCommitHashTooOld (Some (ar_yamls r)) (int i) hs"
  using assms
  by (auto simp: repoStep_def pushAll_append todos_def Let_def split: if_splits)

lemma repoStep_covers:
  assumes fresh: "\<not> isCommitHashTooOld (Some (ar_yamls r)) (int i) hs"
    and y: "y \<in> set (ar_yamls r)"
    and miss: "\<not> truthy (findBuildForCopy C (ar_repo r) (copyTagFrom C (path y) c))"
  shows "\<exists>t\<in>set (repoStep C thr hs i c [] r).
           todo_repo t = ar_repo r \<and> commitHash t = c \<and> path y \<in> set (yamlPaths t)"
proof -
  let ?ty = "todoYamlsLoop C (ar_repo r) c (ar_yamls r) []"
  from y miss have mem: "path y \<in> set ?ty"
    unfolding todoYamlsLoop_member by blast
  then have ne: "?ty \<noteq> []" by auto
  with fresh have step: "repoStep C thr hs i c [] r = todos thr (ar_repo r) c ?ty"
    by (simp add: repoStep_def pushAll_append)
  show ?thesis
  proof (cases "int (length ?ty) > thr")
    case True
    with mem show ?thesis unfolding step by (simp add: todos_def)
  next
    case False
    with mem show ?thesis unfolding step by (auto simp: todos_def)
  qed
qed

subsection \<open>The loop over commits\<close>

lemma scanLoop_Cons:
  "scanLoop C sd thr hs i (c # rest) st =
     (let pushed = foldl (repoStep C thr hs i c) [] (affectedRepos C sd c);
          st' = \<lparr>todoStack = todoStack st @ pushed,
                 filesFetched = filesFetched st @ [i],
                 storeQueries = storeQueries st @ [map normalizePath (getFilesModifiedBySha C sd c)]\<rparr>
      in if affectedRepos C sd c \<noteq> [] \<and> pushed = [] then st'
         else scanLoop C sd thr hs (Suc i) rest st')"
  using foldl_repoStep_pushed[of C thr hs i c "todoStack st" "affectedRepos C sd c"]
  by (simp add: Let_def affectedRepos_def)

lemma drop_eq_Cons:
  assumes "c # rest = drop i hs"
  shows "i < length hs \<and> hs ! i = c \<and> rest = drop (Suc i) hs"
proof -
  from assms have lt: "i < length hs" by (cases "i < length hs") auto
  from Cons_nth_drop_Suc[OF lt] assms have "hs ! i # drop (Suc i) hs = c # rest" by simp
  with lt show ?thesis by simp
qed

lemma reached_self: "reached C sd thr hs i i"
  by (auto simp: reached_def)

lemma reached_covered:
  "covered C sd thr hs i \<Longrightarrow> i < j \<Longrightarrow> \<not> reached C sd thr hs i j"
  by (auto simp: reached_def)

lemma reached_step:
  "\<not> covered C sd thr hs i \<Longrightarrow> i < j \<Longrightarrow> reached C sd thr hs i j = reached C sd thr hs (Suc i) j"
  unfolding reached_def by (metis Suc_leD Suc_leI le_neq_implies_less)

lemma filter_reached_covered:
  "covered C sd thr hs i \<Longrightarrow> filter (reached C sd thr hs i) [Suc i..<m] = []"
  by (auto simp: filter_empty_conv reached_covered)

lemma filter_reached_step:
  "\<not> covered C sd thr hs i \<Longrightarrow>
   filter (reached C sd thr hs i) [Suc i..<m] = filter (reached C sd thr hs (Suc i)) [Suc i..<m]"
  by (rule filter_cong) (auto simp: reached_step)

lemma scanLoop_result:
  assumes "cs = drop i hs"
  shows "scanLoop C sd thr hs i cs st =
     (let F = filter (reached C sd thr hs i) [i..<i + length cs]
      in \<lparr>todoStack = todoStack st @ concat (map (pushedAt C sd thr hs) F),
          filesFetched = filesFetched st @ F,
          storeQueries = storeQueries st @
             map (\<lambda>j. map normalizePath (getFilesModifiedBySha C sd (hs ! j))) F\<rparr>)"
  using assms
proof (induction cs arbitrary: i st)
  case Nil
  then show ?case by simp
next
  case (Cons c rest)
  from drop_eq_Cons[OF Cons.prems]
  have lt: "i < length hs" and c: "hs ! i = c" and rest: "rest = drop (Suc i) hs" by auto
  have "i < Suc i + length rest" by simp
  then have "[i..<Suc i + length rest] = i # [Suc i..<Suc i + length rest]"
    by (rule upt_conv_Cons)
  moreover have "i + length (c # rest) = Suc i + length rest" by simp
  ultimately have upt: "[i..<i + length (c # rest)] = i # [Suc i..<Suc i + length rest]"
    by metis
  have pushed: "foldl (repoStep C thr hs i c) [] (affectedRepos C sd c) = pushedAt C sd thr hs i"
    by (simp add: pushedAt_def c)
  have hd: "filter (reached C sd thr hs i) (i # js) = i # filter (reached C sd thr hs i) js" for js
    by (simp add: reached_self)
  let ?st' = "\<lparr>todoStack = todoStack st @ pushedAt C sd thr hs i,
               filesFetched = filesFetched st @ [i],
               storeQueries = storeQueries st @ [map normalizePath (getFilesModifiedBySha C sd c)]\<rparr>"
  show ?case
  proof (cases "covered C sd thr hs i")
    case True
    then have stop: "(affectedRepos C sd c \<noteq> [] \<and> pushedAt C sd thr hs i = []) = True"
      by (simp add: covered_def c)
    have eq: "scanLoop C sd thr hs i (c # rest) st = ?st'"
      unfolding scanLoop_Cons Let_def pushed stop by (simp only: if_True)
    have F: "filter (reached C sd thr hs i) [i..<i + length (c # rest)] = [i]"
      unfolding upt hd filter_reached_covered[OF True] by (rule refl)
    show ?thesis
      unfolding eq F by (simp add: Let_def c)
  next
    case False
    then have go: "(affectedRepos C sd c \<noteq> [] \<and> pushedAt C sd thr hs i = []) = False"
      by (simp add: covered_def c)
    have eq: "scanLoop C sd thr hs i (c # rest) st = scanLoop C sd thr hs (Suc i) rest ?st'"
      unfolding scanLoop_Cons Let_def pushed go by (simp only: if_False)
    have F: "filter (reached C sd thr hs i) [i..<i + length (c # rest)] =
             i # filter (reached C sd thr hs (Suc i)) [Suc i..<Suc i + length rest]"
      unfolding upt hd filter_reached_step[OF False] by (rule refl)
    show ?thesis
      unfolding eq F Cons.IH[OF rest] by (simp add: Let_def c)
  qed
qed

lemma scan_result:
  "scan C sd thr hs =
     (let F = filter (reached C sd thr hs 0) [0..<length hs]
      in \<lparr>todoStack = concat (map (pushedAt C sd thr hs) F),
          filesFetched = F,
          storeQueries = map (\<lambda>j. map normalizePath (getFilesModifiedBySha C sd (hs ! j))) F\<rparr>)"
  unfolding scan_def using scanLoop_result[of hs 0 hs C sd thr] by (simp add: Let_def)

lemma pushedAt_member:
  assumes "t \<in> set (pushedAt C sd thr hs k)"
  shows "\<exists>r\<in>set (affectedRepos C sd (hs ! k)). t \<in> set (repoStep C thr hs k (hs ! k) [] r)"
  using assms foldl_repoStep[of C thr hs k "hs ! k" "[]" "affectedRepos C sd (hs ! k)"]
  by (auto simp: pushedAt_def)

lemma pushedAt_miss:
  assumes "t \<in> set (pushedAt C sd thr hs k)" and "p \<in> set (yamlPaths t)"
  shows "\<not> truthy (findBuildForCopy C (todo_repo t) (copyTagFrom C p (commitHash t)))"
proof -
  from pushedAt_member[OF assms(1)] obtain r
    where "t \<in> set (repoStep C thr hs k (hs ! k) [] r)" by blast
  from repoStep_member[OF this] assms(2)
  have "p \<in> set (todoYamlsLoop C (todo_repo t) (commitHash t) (ar_yamls r) [])" by auto
  then show ?thesis by (simp add: todoYamlsLoop_member)
qed

lemma pushedAt_covers:
  assumes "r \<in> set (affectedRepos C sd (hs ! k))"
    and "\<not> isCommitHashTooOld (Some (ar_yamls r)) (int k) hs"
    and "y \<in> set (ar_yamls r)"
    and "\<not> truthy (findBuildForCopy C (ar_repo r) (copyTagFrom C (path y) (hs ! k)))"
  shows "\<exists>t\<in>set (pushedAt C sd thr hs k).
           todo_repo t = ar_repo r \<and> commitHash t = hs ! k \<and> path y \<in> set (yamlPaths t)"
proof -
  from repoStep_covers[OF assms(2,3,4), of thr] obtain t
    where t: "t \<in> set (repoStep C thr hs k (hs ! k) [] r)"
      and p: "todo_repo t = ar_repo r \<and> commitHash t = hs ! k \<and> path y \<in> set (yamlPaths t)"
    by blast
  from t assms(1) have "t \<in> set (pushedAt C sd thr hs k)"
    unfolding pushedAt_def foldl_repoStep by auto
  with p show ?thesis by blast
qed

lemma scan_stack_member:
  assumes "t \<in> set (todoStack (scan C sd thr hs))"
  shows "\<exists>k\<in>set (filesFetched (scan C sd thr hs)). t \<in> set (pushedAt C sd thr hs k)"
  using assms unfolding scan_result by (auto simp: Let_def)

lemma scan_stack_miss:
  assumes "t \<in> set (todoStack (scan C sd thr hs))" and "p \<in> set (yamlPaths t)"
  shows "\<not> truthy (findBuildForCopy C (todo_repo t) (copyTagFrom C p (commitHash t)))"
  using scan_stack_member[OF assms(1)] pushedAt_miss[OF _ assms(2)] by blast

lemma scan_stack_covers:
  assumes "k \<in> set (filesFetched (scan C sd thr hs))" and "t \<in> set (pushedAt C sd thr hs k)"
  shows "t \<in> set (todoStack (scan C sd thr hs))"
  using assms unfolding scan_result by (auto simp: Let_def)

subsection \<open>The replay\<close>

lemma replay_result:
  "foldl (replayStep f sd m nested d) st ts =
     \<lparr>callsMade = callsMade st @ map (copyCallFor sd m nested d) ts,
      callEvents = callEvents st @
         concat (map (\<lambda>t. [CallBegins (copyCallFor sd m nested d t),
                            CallEnds (copyCallFor sd m nested d t)]) ts),
      world = foldl (\<lambda>w t. f (copyCallFor sd m nested d t) w) (world st) ts\<rparr>"
  by (induction ts arbitrary: st) (simp_all add: replayStep_def Let_def)

lemma copyCalls_eq:
  "copyCalls (scanGoogleapisGenAndCreatePullRequests C sd hs thr nested m d f w0) =
     map (copyCallFor sd m nested d) (rev (todoStack (scan C sd thr hs)))"
  by (simp add: scanGoogleapisGenAndCreatePullRequests_def Let_def replay_result)

lemma copyEvents_eq:
  "copyEvents (scanGoogleapisGenAndCreatePullRequests C sd hs thr nested m d f w0) =
     concat (map (\<lambda>c. [CallBegins c, CallEnds c])
               (copyCalls (scanGoogleapisGenAndCreatePullRequests C sd hs thr nested m d f w0)))"
  unfolding copyCalls_eq
  by (simp add: scanGoogleapisGenAndCreatePullRequests_def Let_def replay_result map_concat comp_def)

lemma finalWorld_eq:
  "finalWorld (scanGoogleapisGenAndCreatePullRequests C sd hs thr nested m d f w0) =
     foldl (\<lambda>w c. f c w) w0
       (copyCalls (scanGoogleapisGenAndCreatePullRequests C sd hs thr nested m d f w0))"
  unfolding copyCalls_eq
  by (simp add: scanGoogleapisGenAndCreatePullRequests_def Let_def replay_result foldl_map)

lemma returned_eq:
  "returned (scanGoogleapisGenAndCreatePullRequests C sd hs thr nested m d f w0) =
     length (todoStack (scan C sd thr hs))"
  by (simp add: scanGoogleapisGenAndCreatePullRequests_def Let_def)

subsection \<open>The concrete history, evaluated\<close>

lemmas example_defs = exampleWorld_def visionRepo_def yamlA_def yamlB_def
  normalizePath_def repoStep_def isCommitHashTooOld_def indexOf_def trim_def isWhiteSpace_def
  pushAll_def todos_def Let_def affectedRepos_def pushedAt_def

lemma example_scan:
  "scan exampleWorld ''/tmp/src'' 1 [''c0'', ''c1'', ''c2'', ''c3'', ''c4''] =
     \<lparr>todoStack =
        [\<lparr>todo_repo = visionRepo, commitHash = ''c1'',
          yamlPaths = [''/a/.OwlBot.yaml'', ''/b/.OwlBot.yaml'']\<rparr>,
         \<lparr>todo_repo = visionRepo, commitHash = ''c2'', yamlPaths = [''/b/.OwlBot.yaml'']\<rparr>],
      filesFetched = [0, 1, 2, 3],
      storeQueries = [[''/README.md''], [''/a/x.ts'', ''/b/y.ts''], [''/a/x.ts''], [''/a/z.ts'']]\<rparr>"
  by code_simp

lemma example_scan_three:
  "scan exampleWorld ''/tmp/src'' 1 [''c1'', ''c2'', ''c4''] =
     \<lparr>todoStack =
        [\<lparr>todo_repo = visionRepo, commitHash = ''c1'',
          yamlPaths = [''/a/.OwlBot.yaml'', ''/b/.OwlBot.yaml'']\<rparr>,
         \<lparr>todo_repo = visionRepo, commitHash = ''c2'', yamlPaths = [''/b/.OwlBot.yaml'']\<rparr>,
         \<lparr>todo_repo = visionRepo, commitHash = ''c4'', yamlPaths = [''/b/.OwlBot.yaml'']\<rparr>],
      filesFetched = [0, 1, 2],
      storeQueries = [[''/a/x.ts'', ''/b/y.ts''], [''/a/x.ts''], [''/b/w.ts'']]\<rparr>"
  by code_simp

lemma example_fresh_c1: "\<not> isCommitHashTooOld (Some [yamlA, yamlB]) 0 [''c1'']"
  by (simp add: example_defs)

subsection \<open>The work aggregator\<close>

text \<open>
  Claim C1, as amended. One commit affects one repo with exactly two configs, neither
  with a build in the ledger, and the repo is not stale. With
  \<^verbatim>\<open>combinePullsThreshold = 1\<close> the count 2 exceeds the threshold and the stack holds one
  combined item with both config-paths; with \<^verbatim>\<open>combinePullsThreshold = 2\<close> it does not,
  and the stack holds two items, one per config-path.
\<close>

theorem two_paths_threshold:
  assumes repos: "affectedRepos C sd c = [r]"
    and yamls: "ar_yamls r = [y1, y2]"
    and miss1: "\<not> truthy (findBuildForCopy C (ar_repo r) (copyTagFrom C (path y1) c))"
    and miss2: "\<not> truthy (findBuildForCopy C (ar_repo r) (copyTagFrom C (path y2) c))"
    and fresh: "\<not> isCommitHashTooOld (Some [y1, y2]) 0 [c]"
  shows "todoStack (scan C sd 1 [c]) =
           [\<lparr>todo_repo = ar_repo r, commitHash = c, yamlPaths = [path y1, path y2]\<rparr>]
       \<and> todoStack (scan C sd 2 [c]) =
           [\<lparr>todo_repo = ar_repo r, commitHash = c, yamlPaths = [path y1]\<rparr>,
            \<lparr>todo_repo = ar_repo r, commitHash = c, yamlPaths = [path y2]\<rparr>]"
proof -
  have ty: "todoYamlsLoop C (ar_repo r) c [y1, y2] [] = [path y1, path y2]"
    using miss1 miss2 by (simp add: Let_def)
  have step: "repoStep C thr [c] 0 c [] r = todos thr (ar_repo r) c [path y1, path y2]" for thr
    unfolding repoStep_def yamls ty using fresh by (simp add: pushAll_append)
  have only: "filter (reached C sd thr [c] 0) [0..<length [c]] = [0]" for thr
    by (simp add: reached_self)
  have pushed: "pushedAt C sd thr [c] 0 = todos thr (ar_repo r) c [path y1, path y2]" for thr
    by (simp add: pushedAt_def repos step)
  have "todoStack (scan C sd thr [c]) = todos thr (ar_repo r) c [path y1, path y2]" for thr
    unfolding scan_result Let_def only by (simp add: pushed)
  then show ?thesis by (simp add: todos_def)
qed

theorem two_paths_threshold_witness:
  "todoStack (scan exampleWorld ''/srv/googleapis-gen'' 1 [''c1'']) =
        [\<lparr>todo_repo = visionRepo, commitHash = ''c1'',
          yamlPaths = [path yamlA, path yamlB]\<rparr>]
   \<and> todoStack (scan exampleWorld ''/srv/googleapis-gen'' 2 [''c1'']) =
        [\<lparr>todo_repo = visionRepo, commitHash = ''c1'', yamlPaths = [path yamlA]\<rparr>,
         \<lparr>todo_repo = visionRepo, commitHash = ''c1'', yamlPaths = [path yamlB]\<rparr>]"
proof -
  let ?r = "\<lparr>ar_repo = visionRepo, ar_yamls = [yamlA, yamlB]\<rparr>"
  have repos: "affectedRepos exampleWorld ''/srv/googleapis-gen'' ''c1'' = [?r]"
    by (simp add: example_defs)
  have yamls: "ar_yamls ?r = [yamlA, yamlB]" by simp
  have m1: "\<not> truthy (findBuildForCopy exampleWorld (ar_repo ?r)
                (copyTagFrom exampleWorld (path yamlA) ''c1''))"
    by (simp add: example_defs)
  have m2: "\<not> truthy (findBuildForCopy exampleWorld (ar_repo ?r)
                (copyTagFrom exampleWorld (path yamlB) ''c1''))"
    by (simp add: example_defs)
  from two_paths_threshold[OF repos yamls m1 m2 example_fresh_c1]
  show ?thesis by simp
qed

text \<open>
  The claim as written has the two outcomes the other way round. In the concrete history,
  commit \<open>c1\<close> affects one repo with two configs and no build in the ledger: threshold 1
  gives one item, not two, and threshold 2 gives two items, not one.
\<close>

theorem two_paths_threshold_counterexample:
  "affectedRepos exampleWorld ''/tmp/src'' ''c1'' =
      [\<lparr>ar_repo = visionRepo, ar_yamls = [yamlA, yamlB]\<rparr>]
   \<and> findBuildForCopy exampleWorld visionRepo (copyTagFrom exampleWorld (path yamlA) ''c1'') = None
   \<and> findBuildForCopy exampleWorld visionRepo (copyTagFrom exampleWorld (path yamlB) ''c1'') = None
   \<and> length (todoStack (scan exampleWorld ''/tmp/src'' 1 [''c1''])) \<noteq> 2
   \<and> todoStack (scan exampleWorld ''/tmp/src'' 1 [''c1'']) =
        [\<lparr>todo_repo = visionRepo, commitHash = ''c1'',
          yamlPaths = [''/a/.OwlBot.yaml'', ''/b/.OwlBot.yaml'']\<rparr>]
   \<and> length (todoStack (scan exampleWorld ''/tmp/src'' 2 [''c1''])) \<noteq> 1
   \<and> todoStack (scan exampleWorld ''/tmp/src'' 2 [''c1'']) =
        [\<lparr>todo_repo = visionRepo, commitHash = ''c1'', yamlPaths = [''/a/.OwlBot.yaml'']\<rparr>,
         \<lparr>todo_repo = visionRepo, commitHash = ''c1'', yamlPaths = [''/b/.OwlBot.yaml'']\<rparr>]"
  by code_simp

text \<open>
  Claim C2. For a repo that is not stale at a commit and has a non-empty list \<open>ty\<close> of todo
  config-paths, the loop body pushes exactly one item holding all of \<open>ty\<close> when the length
  of \<open>ty\<close> exceeds the threshold, and otherwise exactly one item per config-path, each
  with that single path. What is pushed depends on this repo and commit only: the stack
  built so far, from earlier repos and commits, is kept as it is and plays no part, and
  the stack at the end of the scan is the concatenation, over the commits examined and
  their repos, of what the loop body pushes for each when started on an empty stack.
\<close>

theorem work_aggregator_local:
  assumes fresh: "\<not> isCommitHashTooOld (Some (ar_yamls r)) (int i) hs"
    and ty: "todoYamlsLoop C (ar_repo r) c (ar_yamls r) [] = ty"
    and ne: "ty \<noteq> []"
  shows "repoStep C thr hs i c stack r =
           stack @ (if int (length ty) > thr
                    then [\<lparr>todo_repo = ar_repo r, commitHash = c, yamlPaths = ty\<rparr>]
                    else map (\<lambda>p. \<lparr>todo_repo = ar_repo r, commitHash = c, yamlPaths = [p]\<rparr>) ty)
       \<and> todoStack (scan C sd thr hs) =
           concat (map (\<lambda>k. concat (map (repoStep C thr hs k (hs ! k) [])
                                        (affectedRepos C sd (hs ! k))))
                       (filesFetched (scan C sd thr hs)))"
proof
  show "repoStep C thr hs i c stack r =
           stack @ (if int (length ty) > thr
                    then [\<lparr>todo_repo = ar_repo r, commitHash = c, yamlPaths = ty\<rparr>]
                    else map (\<lambda>p. \<lparr>todo_repo = ar_repo r, commitHash = c, yamlPaths = [p]\<rparr>) ty)"
    using fresh ty ne by (simp add: repoStep_def pushAll_append todos_def)
  have "pushedAt C sd thr hs = (\<lambda>k. concat (map (repoStep C thr hs k (hs ! k) [])
                                        (affectedRepos C sd (hs ! k))))"
    by (simp add: pushedAt_def foldl_repoStep fun_eq_iff)
  then show "todoStack (scan C sd thr hs) =
           concat (map (\<lambda>k. concat (map (repoStep C thr hs k (hs ! k) [])
                                        (affectedRepos C sd (hs ! k))))
                       (filesFetched (scan C sd thr hs)))"
    by (simp add: scan_result Let_def)
qed

theorem work_aggregator_local_witness:
  "repoStep exampleWorld 1 [''c0'', ''c1''] 1 ''c1''
      [\<lparr>todo_repo = visionRepo, commitHash = ''c0'', yamlPaths = [''/z'']\<rparr>]
      \<lparr>ar_repo = visionRepo, ar_yamls = [yamlA, yamlB]\<rparr> =
     [\<lparr>todo_repo = visionRepo, commitHash = ''c0'', yamlPaths = [''/z'']\<rparr>,
      \<lparr>todo_repo = visionRepo, commitHash = ''c1'', yamlPaths = [path yamlA, path yamlB]\<rparr>]
   \<and> repoStep exampleWorld 2 [''c0'', ''c1''] 1 ''c1''
      [\<lparr>todo_repo = visionRepo, commitHash = ''c0'', yamlPaths = [''/z'']\<rparr>]
      \<lparr>ar_repo = visionRepo, ar_yamls = [yamlA, yamlB]\<rparr> =
     [\<lparr>todo_repo = visionRepo, commitHash = ''c0'', yamlPaths = [''/z'']\<rparr>,
      \<lparr>todo_repo = visionRepo, commitHash = ''c1'', yamlPaths = [path yamlA]\<rparr>,
      \<lparr>todo_repo = visionRepo, commitHash = ''c1'', yamlPaths = [path yamlB]\<rparr>]"
proof -
  let ?r = "\<lparr>ar_repo = visionRepo, ar_yamls = [yamlA, yamlB]\<rparr>"
  have fresh: "\<not> isCommitHashTooOld (Some (ar_yamls ?r)) (int 1) [''c0'', ''c1'']"
    by (simp add: example_defs)
  have ty: "todoYamlsLoop exampleWorld (ar_repo ?r) ''c1'' (ar_yamls ?r) [] = [path yamlA, path yamlB]"
    by (simp add: example_defs)
  have ne: "[path yamlA, path yamlB] \<noteq> []" by simp
  from work_aggregator_local[OF fresh ty ne, of 1] work_aggregator_local[OF fresh ty ne, of 2]
  show ?thesis by simp
qed

subsection \<open>The dedup filter\<close>

text \<open>
  Claim C5. A ledger record is a build id that \<^verbatim>\<open>findBuildForCopy\<close> returns and line 150
  finds truthy. If the ledger has a record under the repo and the tag of a config-path and
  a commit hash, no item on the stack for that repo and commit holds the config-path, and
  neither does any call of the copy collaborator. The todo list of a repo is exactly its
  config-paths without a record, in config order, and when the commit is examined and
  the repo is not stale, each of them is in an item on the stack for that repo and commit.
\<close>

theorem ledger_hit_excluded:
  "(truthy (findBuildForCopy C R (copyTagFrom C p c)) \<longrightarrow>
      (\<forall>t\<in>set (todoStack (scan C sd thr hs)).
          todo_repo t = R \<and> commitHash t = c \<longrightarrow> p \<notin> set (yamlPaths t))
    \<and> (\<forall>k\<in>set (copyCalls (scanGoogleapisGenAndCreatePullRequests C sd hs thr nested m d f w0)).
          destRepo k = R \<and> sourceRepoCommitHash k = c \<longrightarrow> p \<notin> set (copyYamlPaths k)))
   \<and> todoYamlsLoop C (ar_repo r) c' (ar_yamls r) [] =
       map path (filter (\<lambda>y. \<not> truthy (findBuildForCopy C (ar_repo r) (copyTagFrom C (path y) c')))
                  (ar_yamls r))
   \<and> (j \<in> set (filesFetched (scan C sd thr hs)) \<and> r \<in> set (affectedRepos C sd (hs ! j))
        \<and> \<not> isCommitHashTooOld (Some (ar_yamls r)) (int j) hs \<and> y \<in> set (ar_yamls r)
        \<and> \<not> truthy (findBuildForCopy C (ar_repo r) (copyTagFrom C (path y) (hs ! j))) \<longrightarrow>
      (\<exists>t\<in>set (todoStack (scan C sd thr hs)).
          todo_repo t = ar_repo r \<and> commitHash t = hs ! j \<and> path y \<in> set (yamlPaths t)))"
proof (intro conjI impI ballI)
  fix t
  assume hit: "truthy (findBuildForCopy C R (copyTagFrom C p c))"
    and t: "t \<in> set (todoStack (scan C sd thr hs))" and rc: "todo_repo t = R \<and> commitHash t = c"
  show "p \<notin> set (yamlPaths t)"
  proof
    assume "p \<in> set (yamlPaths t)"
    from scan_stack_miss[OF t this] rc hit show False by simp
  qed
next
  fix k
  assume hit: "truthy (findBuildForCopy C R (copyTagFrom C p c))"
    and k: "k \<in> set (copyCalls (scanGoogleapisGenAndCreatePullRequests C sd hs thr nested m d f w0))"
    and rc: "destRepo k = R \<and> sourceRepoCommitHash k = c"
  from k obtain t where t: "t \<in> set (todoStack (scan C sd thr hs))"
    and kt: "k = copyCallFor sd m nested d t"
    unfolding copyCalls_eq by auto
  show "p \<notin> set (copyYamlPaths k)"
  proof
    assume "p \<in> set (copyYamlPaths k)"
    with kt have "p \<in> set (yamlPaths t)" by (simp add: copyCallFor_def)
    from scan_stack_miss[OF t this] rc hit kt show False by (simp add: copyCallFor_def)
  qed
next
  show "todoYamlsLoop C (ar_repo r) c' (ar_yamls r) [] =
       map path (filter (\<lambda>y. \<not> truthy (findBuildForCopy C (ar_repo r) (copyTagFrom C (path y) c')))
                  (ar_yamls r))"
    by (simp add: todoYamlsLoop_filter)
next
  assume a: "j \<in> set (filesFetched (scan C sd thr hs)) \<and> r \<in> set (affectedRepos C sd (hs ! j))
        \<and> \<not> isCommitHashTooOld (Some (ar_yamls r)) (int j) hs \<and> y \<in> set (ar_yamls r)
        \<and> \<not> truthy (findBuildForCopy C (ar_repo r) (copyTagFrom C (path y) (hs ! j)))"
  then obtain t where t: "t \<in> set (pushedAt C sd thr hs j)"
    and p: "todo_repo t = ar_repo r \<and> commitHash t = hs ! j \<and> path y \<in> set (yamlPaths t)"
    using pushedAt_covers[of r C sd hs j y thr] by blast
  from a t have "t \<in> set (todoStack (scan C sd thr hs))"
    using scan_stack_covers[of j C sd thr hs t] by blast
  with p show "\<exists>t\<in>set (todoStack (scan C sd thr hs)).
          todo_repo t = ar_repo r \<and> commitHash t = hs ! j \<and> path y \<in> set (yamlPaths t)"
    by blast
qed

theorem ledger_hit_excluded_witness:
  "truthy (findBuildForCopy exampleWorld visionRepo
            (copyTagFrom exampleWorld ''/a/.OwlBot.yaml'' ''c2''))
   \<and> \<not> (\<exists>t\<in>set (todoStack (scan exampleWorld ''/tmp/src'' 1 [''c0'', ''c1'', ''c2'', ''c3'', ''c4''])).
          todo_repo t = visionRepo \<and> commitHash t = ''c2'' \<and> ''/a/.OwlBot.yaml'' \<in> set (yamlPaths t))
   \<and> (\<exists>t\<in>set (todoStack (scan exampleWorld ''/tmp/src'' 1 [''c0'', ''c1'', ''c2'', ''c3'', ''c4''])).
          todo_repo t = visionRepo \<and> commitHash t = ''c2'' \<and> ''/b/.OwlBot.yaml'' \<in> set (yamlPaths t))"
proof -
  let ?hs = "[''c0'', ''c1'', ''c2'', ''c3'', ''c4'']"
  let ?r = "\<lparr>ar_repo = visionRepo, ar_yamls = [yamlA, yamlB]\<rparr>"
  have hit: "truthy (findBuildForCopy exampleWorld visionRepo
                (copyTagFrom exampleWorld ''/a/.OwlBot.yaml'' ''c2''))"
    by (simp add: example_defs)
  have j: "2 \<in> set (filesFetched (scan exampleWorld ''/tmp/src'' 1 ?hs))"
    by (simp add: example_scan)
  have r: "?r \<in> set (affectedRepos exampleWorld ''/tmp/src'' (?hs ! 2))"
    by (simp add: example_defs)
  have fresh: "\<not> isCommitHashTooOld (Some (ar_yamls ?r)) (int 2) ?hs"
    by (simp add: example_defs)
  have y: "yamlB \<in> set (ar_yamls ?r)" by simp
  have miss: "\<not> truthy (findBuildForCopy exampleWorld (ar_repo ?r)
                 (copyTagFrom exampleWorld (path yamlB) (?hs ! 2)))"
    by (simp add: example_defs)
  have c2: "?hs ! 2 = ''c2''" by simp
  have pb: "path yamlB = ''/b/.OwlBot.yaml''" by (simp add: yamlB_def)
  note inst = ledger_hit_excluded[of exampleWorld visionRepo "''/a/.OwlBot.yaml''" "''c2''"
      "''/tmp/src''" 1 ?hs No 10 False examplePullRequest "[]" ?r "''c2''" 2 yamlB]
  from inst hit have no: "\<forall>t\<in>set (todoStack (scan exampleWorld ''/tmp/src'' 1 ?hs)).
          todo_repo t = visionRepo \<and> commitHash t = ''c2'' \<longrightarrow> ''/a/.OwlBot.yaml'' \<notin> set (yamlPaths t)"
    by blast
  from inst j r fresh y miss
  have "\<exists>t\<in>set (todoStack (scan exampleWorld ''/tmp/src'' 1 ?hs)).
          todo_repo t = ar_repo ?r \<and> commitHash t = ?hs ! 2 \<and> path yamlB \<in> set (yamlPaths t)"
    by blast
  then have yes: "\<exists>t\<in>set (todoStack (scan exampleWorld ''/tmp/src'' 1 ?hs)).
          todo_repo t = visionRepo \<and> commitHash t = ''c2'' \<and> ''/b/.OwlBot.yaml'' \<in> set (yamlPaths t)"
    unfolding c2 pb by simp
  from hit no yes show ?thesis by blast
qed

subsection \<open>Where the scan stops\<close>

text \<open>
  Claim C6. The commits whose touched files are fetched are, in order, the indices \<open>j\<close>
  such that no commit before \<open>j\<close> affects at least one repo and pushes nothing. So the
  scan goes on past a commit that affects no repo or that pushes an item, and it stops
  right after the first commit that affects a repo and pushes nothing: no older commit is
  examined.
\<close>

theorem scan_stops_exactly:
  "filesFetched (scan C sd thr hs) =
     filter (\<lambda>j. \<forall>k<j. affectedRepos C sd (hs ! k) = [] \<or> pushedAt C sd thr hs k \<noteq> [])
       [0..<length hs]"
proof -
  have "reached C sd thr hs 0 =
        (\<lambda>j. \<forall>k<j. affectedRepos C sd (hs ! k) = [] \<or> pushedAt C sd thr hs k \<noteq> [])"
    by (simp add: reached_def covered_def fun_eq_iff)
  then show ?thesis by (simp add: scan_result Let_def)
qed

theorem scan_stops_exactly_witness:
  "filesFetched (scan exampleWorld ''/tmp/src'' 1 [''c0'', ''c1'', ''c2'', ''c3'', ''c4'']) = [0, 1, 2, 3]
   \<and> filter (\<lambda>j. \<forall>k<j. affectedRepos exampleWorld ''/tmp/src'' ([''c0'', ''c1'', ''c2'', ''c3'', ''c4''] ! k) = []
                 \<or> pushedAt exampleWorld ''/tmp/src'' 1 [''c0'', ''c1'', ''c2'', ''c3'', ''c4''] k \<noteq> [])
        [0..<length [''c0'', ''c1'', ''c2'', ''c3'', ''c4'']] = [0, 1, 2, 3]
   \<and> affectedRepos exampleWorld ''/tmp/src'' ([''c0'', ''c1'', ''c2'', ''c3'', ''c4''] ! 0) = []
   \<and> pushedAt exampleWorld ''/tmp/src'' 1 [''c0'', ''c1'', ''c2'', ''c3'', ''c4''] 1 \<noteq> []
   \<and> pushedAt exampleWorld ''/tmp/src'' 1 [''c0'', ''c1'', ''c2'', ''c3'', ''c4''] 2 \<noteq> []
   \<and> affectedRepos exampleWorld ''/tmp/src'' ([''c0'', ''c1'', ''c2'', ''c3'', ''c4''] ! 3) \<noteq> []
   \<and> pushedAt exampleWorld ''/tmp/src'' 1 [''c0'', ''c1'', ''c2'', ''c3'', ''c4''] 3 = []"
proof -
  let ?hs = "[''c0'', ''c1'', ''c2'', ''c3'', ''c4'']"
  have run: "filesFetched (scan exampleWorld ''/tmp/src'' 1 ?hs) = [0, 1, 2, 3]"
    by (simp add: example_scan)
  from scan_stops_exactly[of exampleWorld "''/tmp/src''" 1 ?hs] run
  have filt: "filter (\<lambda>j. \<forall>k<j. affectedRepos exampleWorld ''/tmp/src'' (?hs ! k) = []
                 \<or> pushedAt exampleWorld ''/tmp/src'' 1 ?hs k \<noteq> [])
        [0..<length ?hs] = [0, 1, 2, 3]"
    by (simp only:)
  have a0: "affectedRepos exampleWorld ''/tmp/src'' (?hs ! 0) = []"
    by code_simp
  have p1: "pushedAt exampleWorld ''/tmp/src'' 1 ?hs 1 \<noteq> []"
    by code_simp
  have p2: "pushedAt exampleWorld ''/tmp/src'' 1 ?hs 2 \<noteq> []"
    by code_simp
  have a3: "affectedRepos exampleWorld ''/tmp/src'' (?hs ! 3) \<noteq> []"
    by code_simp
  have p3: "pushedAt exampleWorld ''/tmp/src'' 1 ?hs 3 = []"
    by code_simp
  from run filt a0 p1 p2 a3 p3 show ?thesis by blast
qed

subsection \<open>The replay order and the number returned\<close>

text \<open>
  Claim C7. The copy collaborator is called once per item of the stack, in the reverse of
  the order in which the items were pushed: the commit hashes of the calls are the commit
  hashes of the stack, reversed. The calls do not overlap: in the sequence of events each
  call begins and ends before the next one begins, and each call starts in the world the
  call before it left.
\<close>

theorem replay_reverses_push_order:
  "copyCalls (scanGoogleapisGenAndCreatePullRequests C sd hs thr nested m d f w0) =
     map (copyCallFor sd m nested d) (rev (todoStack (scan C sd thr hs)))
   \<and> map sourceRepoCommitHash (copyCalls (scanGoogleapisGenAndCreatePullRequests C sd hs thr nested m d f w0)) =
     rev (map commitHash (todoStack (scan C sd thr hs)))
   \<and> copyEvents (scanGoogleapisGenAndCreatePullRequests C sd hs thr nested m d f w0) =
     concat (map (\<lambda>c. [CallBegins c, CallEnds c])
               (copyCalls (scanGoogleapisGenAndCreatePullRequests C sd hs thr nested m d f w0)))
   \<and> finalWorld (scanGoogleapisGenAndCreatePullRequests C sd hs thr nested m d f w0) =
     foldl (\<lambda>w c. f c w) w0
       (copyCalls (scanGoogleapisGenAndCreatePullRequests C sd hs thr nested m d f w0))"
proof (intro conjI)
  show "copyCalls (scanGoogleapisGenAndCreatePullRequests C sd hs thr nested m d f w0) =
     map (copyCallFor sd m nested d) (rev (todoStack (scan C sd thr hs)))"
    by (rule copyCalls_eq)
  show "map sourceRepoCommitHash (copyCalls (scanGoogleapisGenAndCreatePullRequests C sd hs thr nested m d f w0)) =
     rev (map commitHash (todoStack (scan C sd thr hs)))"
    by (simp add: copyCalls_eq rev_map copyCallFor_def comp_def)
  show "copyEvents (scanGoogleapisGenAndCreatePullRequests C sd hs thr nested m d f w0) =
     concat (map (\<lambda>c. [CallBegins c, CallEnds c])
               (copyCalls (scanGoogleapisGenAndCreatePullRequests C sd hs thr nested m d f w0)))"
    by (rule copyEvents_eq)
  show "finalWorld (scanGoogleapisGenAndCreatePullRequests C sd hs thr nested m d f w0) =
     foldl (\<lambda>w c. f c w) w0
       (copyCalls (scanGoogleapisGenAndCreatePullRequests C sd hs thr nested m d f w0))"
    by (rule finalWorld_eq)
qed

theorem replay_reverses_push_order_witness:
  "map commitHash (todoStack (scan exampleWorld ''/tmp/src'' 1 [''c1'', ''c2'', ''c4''])) =
     [''c1'', ''c2'', ''c4'']
   \<and> map sourceRepoCommitHash
        (copyCalls (scanGoogleapisGenAndCreatePullRequests exampleWorld ''/tmp/src''
           [''c1'', ''c2'', ''c4''] 1 No 10 False examplePullRequest [])) =
     [''c4'', ''c2'', ''c1'']
   \<and> copyEvents (scanGoogleapisGenAndCreatePullRequests exampleWorld ''/tmp/src''
           [''c1'', ''c2'', ''c4''] 1 No 10 False examplePullRequest []) =
     [CallBegins (copyCallFor ''/tmp/src'' 10 No False
        \<lparr>todo_repo = visionRepo, commitHash = ''c4'', yamlPaths = [''/b/.OwlBot.yaml'']\<rparr>),
      CallEnds (copyCallFor ''/tmp/src'' 10 No False
        \<lparr>todo_repo = visionRepo, commitHash = ''c4'', yamlPaths = [''/b/.OwlBot.yaml'']\<rparr>),
      CallBegins (copyCallFor ''/tmp/src'' 10 No False
        \<lparr>todo_repo = visionRepo, commitHash = ''c2'', yamlPaths = [''/b/.OwlBot.yaml'']\<rparr>),
      CallEnds (copyCallFor ''/tmp/src'' 10 No False
        \<lparr>todo_repo = visionRepo, commitHash = ''c2'', yamlPaths = [''/b/.OwlBot.yaml'']\<rparr>),
      CallBegins (copyCallFor ''/tmp/src'' 10 No False
        \<lparr>todo_repo = visionRepo, commitHash = ''c1'',
          yamlPaths = [''/a/.OwlBot.yaml'', ''/b/.OwlBot.yaml'']\<rparr>),
      CallEnds (copyCallFor ''/tmp/src'' 10 No False
        \<lparr>todo_repo = visionRepo, commitHash = ''c1'',
          yamlPaths = [''/a/.OwlBot.yaml'', ''/b/.OwlBot.yaml'']\<rparr>)]
   \<and> finalWorld (scanGoogleapisGenAndCreatePullRequests exampleWorld ''/tmp/src''
           [''c1'', ''c2'', ''c4''] 1 No 10 False examplePullRequest []) =
     [(''c4'', [''/b/.OwlBot.yaml'']), (''c2'', [''/b/.OwlBot.yaml'']),
      (''c1'', [''/a/.OwlBot.yaml'', ''/b/.OwlBot.yaml''])]"
proof -
  let ?run = "scanGoogleapisGenAndCreatePullRequests exampleWorld ''/tmp/src''
           [''c1'', ''c2'', ''c4''] 1 No 10 False examplePullRequest []"
  have pushed: "map commitHash (todoStack (scan exampleWorld ''/tmp/src'' 1 [''c1'', ''c2'', ''c4''])) =
     [''c1'', ''c2'', ''c4'']"
    by (simp add: example_scan_three)
  note inst = replay_reverses_push_order[of exampleWorld "''/tmp/src''" "[''c1'', ''c2'', ''c4'']"
      1 No 10 False examplePullRequest "[]"]
  from inst have calls: "copyCalls ?run =
      map (copyCallFor ''/tmp/src'' 10 No False)
        (rev (todoStack (scan exampleWorld ''/tmp/src'' 1 [''c1'', ''c2'', ''c4''])))"
    by (rule conjunct1)
  from inst have "map sourceRepoCommitHash (copyCalls ?run) =
      rev (map commitHash (todoStack (scan exampleWorld ''/tmp/src'' 1 [''c1'', ''c2'', ''c4''])))"
    by blast
  then have hashes: "map sourceRepoCommitHash (copyCalls ?run) = [''c4'', ''c2'', ''c1'']"
    unfolding pushed by simp
  from inst have "copyEvents ?run = concat (map (\<lambda>c. [CallBegins c, CallEnds c]) (copyCalls ?run))"
    by blast
  then have events: "copyEvents ?run =
     [CallBegins (copyCallFor ''/tmp/src'' 10 No False
        \<lparr>todo_repo = visionRepo, commitHash = ''c4'', yamlPaths = [''/b/.OwlBot.yaml'']\<rparr>),
      CallEnds (copyCallFor ''/tmp/src'' 10 No False
        \<lparr>todo_repo = visionRepo, commitHash = ''c4'', yamlPaths = [''/b/.OwlBot.yaml'']\<rparr>),
      CallBegins (copyCallFor ''/tmp/src'' 10 No False
        \<lparr>todo_repo = visionRepo, commitHash = ''c2'', yamlPaths = [''/b/.OwlBot.yaml'']\<rparr>),
      CallEnds (copyCallFor ''/tmp/src'' 10 No False
        \<lparr>todo_repo = visionRepo, commitHash = ''c2'', yamlPaths = [''/b/.OwlBot.yaml'']\<rparr>),
      CallBegins (copyCallFor ''/tmp/src'' 10 No False
        \<lparr>todo_repo = visionRepo, commitHash = ''c1'',
          yamlPaths = [''/a/.OwlBot.yaml'', ''/b/.OwlBot.yaml'']\<rparr>),
      CallEnds (copyCallFor ''/tmp/src'' 10 No False
        \<lparr>todo_repo = visionRepo, commitHash = ''c1'',
          yamlPaths = [''/a/.OwlBot.yaml'', ''/b/.OwlBot.yaml'']\<rparr>)]"
    unfolding calls by (simp add: example_scan_three)
  from inst have "finalWorld ?run = foldl (\<lambda>w c. examplePullRequest c w) [] (copyCalls ?run)"
    by blast
  then have left: "finalWorld ?run =
     [(''c4'', [''/b/.OwlBot.yaml'']), (''c2'', [''/b/.OwlBot.yaml'']),
      (''c1'', [''/a/.OwlBot.yaml'', ''/b/.OwlBot.yaml''])]"
    unfolding calls by (simp add: example_scan_three examplePullRequest_def copyCallFor_def)
  from pushed hashes events left show ?thesis by blast
qed

text \<open>
  Claim C8. The number returned is the number of calls made to the copy collaborator, and
  also the number of items pushed on the stack during the scan.
\<close>

theorem returns_number_executed:
  "returned (scanGoogleapisGenAndCreatePullRequests C sd hs thr nested m d f w0) =
     length (copyCalls (scanGoogleapisGenAndCreatePullRequests C sd hs thr nested m d f w0))
   \<and> returned (scanGoogleapisGenAndCreatePullRequests C sd hs thr nested m d f w0) =
     length (todoStack (scan C sd thr hs))"
  by (simp add: copyCalls_eq returned_eq)

theorem returns_number_executed_witness:
  "length (todoStack (scan exampleWorld ''/tmp/src'' 1 [''c1'', ''c2'', ''c4''])) = 3
   \<and> returned (scanGoogleapisGenAndCreatePullRequests exampleWorld ''/tmp/src''
        [''c1'', ''c2'', ''c4''] 1 No 10 False examplePullRequest []) = 3
   \<and> length (copyCalls (scanGoogleapisGenAndCreatePullRequests exampleWorld ''/tmp/src''
        [''c1'', ''c2'', ''c4''] 1 No 10 False examplePullRequest [])) = 3"
proof -
  have pushed: "length (todoStack (scan exampleWorld ''/tmp/src'' 1 [''c1'', ''c2'', ''c4''])) = 3"
    by (simp add: example_scan_three)
  from returns_number_executed[of exampleWorld "''/tmp/src''" "[''c1'', ''c2'', ''c4'']" 1 No 10 False
      examplePullRequest "[]"]
    pushed
  show ?thesis by simp
qed

subsection \<open>Touched files\<close>

lemma startsWithSlash_normalizePath: "startsWithSlash (normalizePath f)"
  by (simp add: normalizePath_def)

text \<open>
  Claim C9. The lists passed to \<^verbatim>\<open>findReposAffectedByFileChanges\<close> are the normalized lists
  of touched files of the commits examined, and every path in them starts with a slash.
  Normalizing leaves a path that starts with a slash as it is, and normalizing twice is
  normalizing once.
\<close>

theorem touched_files_normalized:
  "storeQueries (scan C sd thr hs) =
     map (\<lambda>j. map normalizePath (getFilesModifiedBySha C sd (hs ! j))) (filesFetched (scan C sd thr hs))
   \<and> (\<forall>q\<in>set (storeQueries (scan C sd thr hs)). \<forall>p\<in>set q. startsWithSlash p)
   \<and> (startsWithSlash f \<longrightarrow> normalizePath f = f)
   \<and> normalizePath (normalizePath f) = normalizePath f"
proof (intro conjI)
  show q: "storeQueries (scan C sd thr hs) =
     map (\<lambda>j. map normalizePath (getFilesModifiedBySha C sd (hs ! j))) (filesFetched (scan C sd thr hs))"
    by (simp add: scan_result Let_def)
  show "\<forall>q\<in>set (storeQueries (scan C sd thr hs)). \<forall>p\<in>set q. startsWithSlash p"
    unfolding q by (auto simp: startsWithSlash_normalizePath)
  show "startsWithSlash f \<longrightarrow> normalizePath f = f"
    by (simp add: normalizePath_def)
  show "normalizePath (normalizePath f) = normalizePath f"
    by (simp add: normalizePath_def)
qed

theorem touched_files_normalized_witness:
  "storeQueries (scan exampleWorld ''/tmp/src'' 1 [''c0'', ''c1'', ''c2'', ''c3'', ''c4'']) =
     [[''/README.md''], [''/a/x.ts'', ''/b/y.ts''], [''/a/x.ts''], [''/a/z.ts'']]
   \<and> \<not> (\<exists>q\<in>set (storeQueries (scan exampleWorld ''/tmp/src'' 1 [''c0'', ''c1'', ''c2'', ''c3'', ''c4''])).
          \<exists>p\<in>set q. \<not> startsWithSlash p)
   \<and> startsWithSlash ''/b/y.ts''
   \<and> normalizePath ''/b/y.ts'' = ''/b/y.ts''
   \<and> normalizePath (normalizePath ''a/x.ts'') = normalizePath ''a/x.ts''"
proof -
  let ?hs = "[''c0'', ''c1'', ''c2'', ''c3'', ''c4'']"
  have q: "storeQueries (scan exampleWorld ''/tmp/src'' 1 ?hs) =
     [[''/README.md''], [''/a/x.ts'', ''/b/y.ts''], [''/a/x.ts''], [''/a/z.ts'']]"
    by (simp add: example_scan)
  have s: "startsWithSlash ''/b/y.ts''" by simp
  from touched_files_normalized[of exampleWorld "''/tmp/src''" 1 ?hs "''/b/y.ts''"] s
  have a: "(\<forall>q\<in>set (storeQueries (scan exampleWorld ''/tmp/src'' 1 ?hs)). \<forall>p\<in>set q. startsWithSlash p)
           \<and> normalizePath ''/b/y.ts'' = ''/b/y.ts''"
    by blast
  from touched_files_normalized[of exampleWorld "''/tmp/src''" 1 ?hs "''a/x.ts''"]
  have b: "normalizePath (normalizePath ''a/x.ts'') = normalizePath ''a/x.ts''"
    by blast
  from q s a b show ?thesis by blast
qed

end
